theory Spec2Isabelle
  imports Main "HOL-Library.Char_ord" "HOL-Library.List_Lexorder" "HOL-Library.Sublist"
    "HOL-Library.AList"
begin

section \<open>Values shared by all commands\<close>

text \<open>
  The program is a command-line tool (\<^verbatim>\<open>azure.go\<close>) with five commands. Every command
  prints with \<^verbatim>\<open>fmt.Printf\<close> and ends the process with \<^verbatim>\<open>log.Fatal(err)\<close> as soon as
  a call returns an error. Errors are values here: \<open>Errorf\<close> is an error made by the
  program itself with \<^verbatim>\<open>fmt.Errorf\<close>, \<open>SDK\<close> is an error returned by a call into the
  storage libraries.
\<close>

datatype error = Errorf string | SDK string

definition newline :: char where
  "newline = CHR 0x0A"

section \<open>The listing of a bucket\<close>

text \<open>
  \<^verbatim>\<open>blob.ListObject\<close>: the closure of the list command reads the fields \<^verbatim>\<open>Key\<close> and
  \<^verbatim>\<open>IsDir\<close> only.
\<close>

record ListObject =
  Key :: string
  IsDir :: bool

text \<open>
  A bucket as the list command sees it: the keys of the blobs it holds, and the failure
  the service may answer while a listing is iterated (\<open>next_err b p = Some (i, e)\<close>:
  in a listing with prefix \<open>p\<close>, the call of \<^verbatim>\<open>iter.Next\<close> that follows \<open>i\<close> successful
  ones returns an error with the message \<open>e\<close>).
\<close>

record bucket =
  keys :: "string list"
  next_err :: "string \<Rightarrow> (nat \<times> string) option"

text \<open>
  Modelled from the spec: the enumeration behind \<^verbatim>\<open>b.List(&blob.ListOptions{Delimiter,
  Prefix})\<close> belongs to the storage library and is not part of the repository. Section
  4.1 of the specification describes it: keys sharing the prefix are grouped by the
  substring up to the first delimiter after the prefix; a key with no further delimiter
  is a Leaf (\<open>IsDir = False\<close>, the key itself); keys sharing the next segment collapse
  into one Group (\<open>IsDir = True\<close>) keyed by prefix + segment + delimiter; the nodes come
  in lexicographic order of their key strings.
\<close>

definition entry :: "char \<Rightarrow> string \<Rightarrow> string \<Rightarrow> ListObject" where
  "entry d p k =
     (let rest = drop (length p) k in
      if d \<in> set rest
      then \<lparr>Key = p @ takeWhile (\<lambda>c. c \<noteq> d) rest @ [d], IsDir = True\<rparr>
      else \<lparr>Key = k, IsDir = False\<rparr>)"

definition buildListing :: "string list \<Rightarrow> string \<Rightarrow> char \<Rightarrow> ListObject list" where
  "buildListing ks p d = sort_key Key (remdups (map (entry d p) (filter (prefix p) ks)))"

text \<open>
  The results of the successive calls of \<^verbatim>\<open>iter.Next\<close> before \<^verbatim>\<open>io.EOF\<close>: \<open>Inr obj\<close> for
  an object, \<open>Inl e\<close> for an error other than \<^verbatim>\<open>io.EOF\<close>.
\<close>

definition List_iter :: "bucket \<Rightarrow> char \<Rightarrow> string \<Rightarrow> (error + ListObject) list" where
  "List_iter b d p =
     (let objs = buildListing (keys b) p d in
      case next_err b p of
        None \<Rightarrow> map Inr objs
      | Some (i, msg) \<Rightarrow> map Inr (take i objs) @ [Inl (SDK msg)])"

text \<open>
  \<^verbatim>\<open>blob.PrefixedBucket(bucket, blobPrefix)\<close>: the bucket of the keys that start with
  \<open>blobPrefix\<close>, with that prefix removed.
\<close>

definition PrefixedBucket :: "bucket \<Rightarrow> string \<Rightarrow> bucket" where
  "PrefixedBucket b pfx =
     \<lparr>keys = map (drop (length pfx)) (filter (prefix pfx) (keys b)),
      next_err = (\<lambda>p. next_err b (pfx @ p))\<rparr>"

text \<open>
  The loop \<^verbatim>\<open>for { obj, err := iter.Next(ctx); ... }\<close> of the closure: it ends at
  \<^verbatim>\<open>io.EOF\<close>, and \<^verbatim>\<open>log.Fatal(err)\<close> ends the whole process at the first other error.
  The result is the text printed so far, one element for each \<^verbatim>\<open>Printf\<close>, and the
  error given to \<^verbatim>\<open>log.Fatal\<close> if there was one.
\<close>

fun for_each ::
  "('a \<Rightarrow> string list \<times> error option) \<Rightarrow> (error + 'a) list \<Rightarrow> string list \<times> error option"
where
  "for_each body [] = ([], None)"
| "for_each body (Inl e # rest) = ([], Some e)"
| "for_each body (Inr obj # rest) =
     (case body obj of
        (out, Some e) \<Rightarrow> (out, Some e)
      | (out, None) \<Rightarrow> (case for_each body rest of (out', r) \<Rightarrow> (out @ out', r)))"

lemma for_each_cong [fundef_cong]:
  assumes "xs = ys" and "\<And>x. Inr x \<in> set ys \<Longrightarrow> f x = g x"
  shows "for_each f xs = for_each g ys"
  unfolding assms(1) using assms(2)
proof (induction ys)
  case Nil
  show ?case by simp
next
  case (Cons y ys)
  show ?case
  proof (cases y)
    case (Inl e)
    then show ?thesis by simp
  next
    case (Inr x)
    have "f x = g x" using Cons.prems Inr by simp
    moreover have "for_each f ys = for_each g ys" using Cons by simp
    ultimately show ?thesis using Inr by simp
  qed
qed

text \<open>The longest key of a bucket bounds the depth of every listing.\<close>

definition maxlen :: "string list \<Rightarrow> nat" where
  "maxlen ks = Max (insert 0 (length ` set ks))"

lemma length_le_maxlen: "k \<in> set ks \<Longrightarrow> length k \<le> maxlen ks"
  by (simp add: maxlen_def)

lemma entry_dir_prefix:
  assumes "prefix p k" and "IsDir (entry d p k)"
  shows "prefix (Key (entry d p k)) k" and "length p < length (Key (entry d p k))"
proof -
  obtain rest where k: "k = p @ rest" using assms(1) by (auto simp: prefix_def)
  have d: "d \<in> set rest" using assms(2) k by (auto simp: entry_def split: if_splits)
  have key: "Key (entry d p k) = p @ takeWhile (\<lambda>c. c \<noteq> d) rest @ [d]"
    using d k by (simp add: entry_def)
  have "rest = takeWhile (\<lambda>c. c \<noteq> d) rest @ dropWhile (\<lambda>c. c \<noteq> d) rest" by simp
  moreover have "dropWhile (\<lambda>c. c \<noteq> d) rest \<noteq> []" using d by auto
  moreover have "hd (dropWhile (\<lambda>c. c \<noteq> d) rest) = d"
    using d hd_dropWhile[of "\<lambda>c. c \<noteq> d" rest] by auto
  ultimately obtain tl' where "rest = takeWhile (\<lambda>c. c \<noteq> d) rest @ d # tl'"
    by (metis list.collapse)
  then have "k = (p @ takeWhile (\<lambda>c. c \<noteq> d) rest @ [d]) @ tl'" using k by simp
  then show "prefix (Key (entry d p k)) k" unfolding key by (metis prefixI)
  show "length p < length (Key (entry d p k))" unfolding key by simp
qed

lemma set_buildListing:
  "set (buildListing ks p d) = entry d p ` {k \<in> set ks. prefix p k}"
  by (auto simp: buildListing_def)

lemma List_iter_obj:
  assumes "Inr obj \<in> set (List_iter b d p)"
  shows "obj \<in> set (buildListing (keys b) p d)"
  using assms by (auto simp: List_iter_def Let_def split: option.splits dest: in_set_takeD)

text \<open>
  The closure \<^verbatim>\<open>list\<close> of the list command. The source fixes the delimiter
  (\<^verbatim>\<open>Delimiter: "/"\<close>); it is the first argument here and the command passes \<open>CHR ''/''\<close>.
  The closure prints \<^verbatim>\<open>indent + obj.Key + "\n"\<close> for every object and, for a directory,
  calls itself with the directory's key as the prefix and two more spaces of indent.
  It has no bound on the depth of this recursion.
\<close>

function list :: "char \<Rightarrow> bucket \<Rightarrow> string \<Rightarrow> string \<Rightarrow> string list \<times> error option" where
  "list d b pre indent =
     for_each
       (\<lambda>obj.
          let line = indent @ Key obj @ [newline] in
          if IsDir obj
          then (case list d b (Key obj) (indent @ ''  '') of (out, r) \<Rightarrow> (line # out, r))
          else ([line], None))
       (List_iter b d pre)"
  by pat_completeness auto
termination
proof (relation "measure (\<lambda>(d, b, p, indent). Suc (maxlen (keys b)) - length p)")
  show "wf (measure (\<lambda>(d, b, p, indent). Suc (maxlen (keys b)) - length p))" by simp
next
  fix d :: char and b :: bucket and p indent :: string and obj :: ListObject and line :: string
  assume obj: "Inr obj \<in> set (List_iter b d p)" and dir: "IsDir obj"
  from List_iter_obj[OF obj] obtain k where k: "k \<in> set (keys b)" "prefix p k" "obj = entry d p k"
    by (auto simp: set_buildListing)
  have "prefix (Key obj) k" and lt: "length p < length (Key obj)"
    using entry_dir_prefix[of p k d] k dir by simp_all
  then have "length (Key obj) \<le> length k" by (simp add: prefix_length_le)
  then have "length (Key obj) \<le> maxlen (keys b)" using length_le_maxlen[OF k(1)] by simp
  then show "((d, b, Key obj, indent @ ''  ''), (d, b, p, indent))
               \<in> measure (\<lambda>(d, b, p, indent). Suc (maxlen (keys b)) - length p)"
    using lt by simp
qed


text \<open>
  The objects the closure visits when no call fails, each with the depth of the call of
  \<^verbatim>\<open>list\<close> that handles it (0 for the outermost call). It follows the recursion of
  \<open>list\<close> and is what the printed text is compared with.
\<close>

definition subtree ::
  "(string \<Rightarrow> nat \<Rightarrow> (nat \<times> ListObject) list) \<Rightarrow> nat \<Rightarrow> ListObject \<Rightarrow> (nat \<times> ListObject) list"
where
  "subtree below n obj = (n, obj) # (if IsDir obj then below (Key obj) (Suc n) else [])"

lemma subtree_cong [fundef_cong]:
  assumes "n = m" and "obj = obj'" and "IsDir obj' \<Longrightarrow> f (Key obj') (Suc m) = g (Key obj') (Suc m)"
  shows "subtree f n obj = subtree g m obj'"
  using assms by (simp add: subtree_def)

function visited :: "char \<Rightarrow> string list \<Rightarrow> string \<Rightarrow> nat \<Rightarrow> (nat \<times> ListObject) list" where
  "visited d ks p n = concat (map (subtree (visited d ks) n) (buildListing ks p d))"
  by pat_completeness auto
termination
proof (relation "measure (\<lambda>(d, ks, p, n). Suc (maxlen ks) - length p)")
  show "wf (measure (\<lambda>(d, ks, p, n). Suc (maxlen ks) - length p))" by simp
next
  fix d :: char and ks :: "string list" and p :: string and n :: nat and obj :: ListObject
  assume obj: "obj \<in> set (buildListing ks p d)" and dir: "IsDir obj"
  then obtain k where k: "k \<in> set ks" "prefix p k" "obj = entry d p k"
    by (auto simp: set_buildListing)
  have "prefix (Key obj) k" and lt: "length p < length (Key obj)"
    using entry_dir_prefix[of p k d] k dir by simp_all
  then have "length (Key obj) \<le> length k" by (simp add: prefix_length_le)
  then have "length (Key obj) \<le> maxlen ks" using length_le_maxlen[OF k(1)] by simp
  then show "((d, ks, Key obj, Suc n), (d, ks, p, n))
               \<in> measure (\<lambda>(d, ks, p, n). Suc (maxlen ks) - length p)"
    using lt by simp
qed


text \<open>A bucket that holds the keys \<open>ks\<close> and whose listings never fail.\<close>

definition no_fault :: "string \<Rightarrow> (nat \<times> string) option" where
  "no_fault p = None"

definition healthy :: "string list \<Rightarrow> bucket" where
  "healthy ks = \<lparr>keys = ks, next_err = no_fault\<rparr>"

text \<open>
  The text of the line printed for a visited object, its indentation (none for the
  objects of the outermost call), the keys of the Leaf objects among visited ones, and the
  depth of an object in the hierarchy that the delimiter gives to its key: the number of
  delimiters in the key, where the delimiter that ends a directory's key does not count.
\<close>

definition line :: "nat \<times> ListObject \<Rightarrow> string" where
  "line e = replicate (2 * fst e) CHR '' '' @ Key (snd e) @ [newline]"

definition leaf_keys :: "(nat \<times> ListObject) list \<Rightarrow> string list" where
  "leaf_keys es = map (Key \<circ> snd) (filter (\<lambda>e. \<not> IsDir (snd e)) es)"

definition depth :: "char \<Rightarrow> ListObject \<Rightarrow> nat" where
  "depth d obj = count_list (Key obj) d - (if IsDir obj then 1 else 0)"

text \<open>
  The lines of a listing of the keys \<open>ks\<close> from the empty prefix: for every visited object
  its key and a newline, indented by two spaces for each level of its depth.
\<close>

definition listing_lines :: "char \<Rightarrow> string list \<Rightarrow> string list" where
  "listing_lines d ks =
     map (\<lambda>obj. replicate (2 * depth d obj) CHR '' '' @ Key obj @ [newline])
         (map snd (visited d ks [] 0))"

text \<open>
  What happens, in order, in a listing in which no call fails: \<open>Next p i\<close> is the call of
  \<^verbatim>\<open>iter.Next\<close> that returns object number \<open>i\<close> of the listing of prefix \<open>p\<close>, \<open>Eof p\<close> the
  call that returns \<^verbatim>\<open>io.EOF\<close> there, and \<open>Print n obj\<close> the \<^verbatim>\<open>Printf\<close> of an object at
  depth \<open>n\<close>. It is what a run with failing calls is compared with.
\<close>

datatype event = Next string nat | Eof string | Print nat ListObject

fun steps ::
  "(string \<Rightarrow> nat \<Rightarrow> event list) \<Rightarrow> string \<Rightarrow> nat \<Rightarrow> nat \<Rightarrow> ListObject list \<Rightarrow> event list"
where
  "steps below p n i [] = [Eof p]"
| "steps below p n i (obj # objs) =
     Next p i # Print n obj # (if IsDir obj then below (Key obj) (Suc n) else [])
       @ steps below p n (Suc i) objs"

lemma steps_cong [fundef_cong]:
  assumes "p = p'" and "n = n'" and "i = i'" and "objs = objs'"
    and "\<And>obj. obj \<in> set objs' \<Longrightarrow> IsDir obj \<Longrightarrow> f (Key obj) (Suc n') = g (Key obj) (Suc n')"
  shows "steps f p n i objs = steps g p' n' i' objs'"
  unfolding assms(1-4) using assms(5)
  by (induction objs' arbitrary: i') simp_all

function events :: "char \<Rightarrow> string list \<Rightarrow> string \<Rightarrow> nat \<Rightarrow> event list" where
  "events d ks p n = steps (events d ks) p n 0 (buildListing ks p d)"
  by pat_completeness auto
termination
proof (relation "measure (\<lambda>(d, ks, p, n). Suc (maxlen ks) - length p)")
  show "wf (measure (\<lambda>(d, ks, p, n). Suc (maxlen ks) - length p))" by simp
next
  fix d :: char and ks :: "string list" and p :: string and n :: nat and obj :: ListObject
  assume obj: "obj \<in> set (buildListing ks p d)" and dir: "IsDir obj"
  then obtain k where k: "k \<in> set ks" "prefix p k" "obj = entry d p k"
    by (auto simp: set_buildListing)
  have "prefix (Key obj) k" and lt: "length p < length (Key obj)"
    using entry_dir_prefix[of p k d] k dir by simp_all
  then have "length (Key obj) \<le> length k" by (simp add: prefix_length_le)
  then have "length (Key obj) \<le> maxlen ks" using length_le_maxlen[OF k(1)] by simp
  then show "((d, ks, Key obj, Suc n), (d, ks, p, n))
               \<in> measure (\<lambda>(d, ks, p, n). Suc (maxlen ks) - length p)"
    using lt by simp
qed

text \<open>
  The calls that fail in a bucket (a listing with \<open>next_err b q = Some (j, msg)\<close> fails at
  the call that follows \<open>j\<close> successful ones, or at the call that would return \<^verbatim>\<open>io.EOF\<close>
  when the listing has fewer objects), the error of a failing call, the lines printed by
  a sequence of events, and a run cut at its first failing call: the lines printed before
  that call, and its error.
\<close>

fun fails :: "bucket \<Rightarrow> event \<Rightarrow> bool" where
  "fails b (Next q i) = (case next_err b q of None \<Rightarrow> False | Some (j, msg) \<Rightarrow> j \<le> i)"
| "fails b (Eof q) = (next_err b q \<noteq> None)"
| "fails b (Print n obj) = False"

fun error_at :: "bucket \<Rightarrow> event \<Rightarrow> error option" where
  "error_at b (Next q i) = map_option (\<lambda>(j, msg). SDK msg) (next_err b q)"
| "error_at b (Eof q) = map_option (\<lambda>(j, msg). SDK msg) (next_err b q)"
| "error_at b (Print n obj) = None"

fun printed :: "event list \<Rightarrow> string list" where
  "printed [] = []"
| "printed (Print n obj # evs) = line (n, obj) # printed evs"
| "printed (ev # evs) = printed evs"

definition cut_run :: "bucket \<Rightarrow> event list \<Rightarrow> string list \<times> error option" where
  "cut_run b evs =
     (printed (takeWhile (\<lambda>ev. \<not> fails b ev) evs),
      case dropWhile (\<lambda>ev. \<not> fails b ev) evs of [] \<Rightarrow> None | ev # rest \<Rightarrow> error_at b ev)"

text \<open>
  The results of the calls of \<^verbatim>\<open>iter.Next\<close> that remain when \<open>i\<close> objects have been
  returned and the objects \<open>os\<close> are left, in a listing with the failure \<open>fault\<close>.
\<close>

definition iter_from ::
  "(nat \<times> string) option \<Rightarrow> nat \<Rightarrow> ListObject list \<Rightarrow> (error + ListObject) list"
where
  "iter_from fault i os =
     (case fault of
        None \<Rightarrow> map Inr os
      | Some (j, msg) \<Rightarrow> map Inr (take (j - i) os) @ [Inl (SDK msg)])"

section \<open>The storage service and the process\<close>

text \<open>
  The storage service is outside the repository; the program reaches it through the
  calls below. \<open>world\<close> is the service as one run of the program sees it: the blobs of
  the container named by \<^verbatim>\<open>--container-name\<close>, the answers the service gives to the
  successive calls (\<open>faults\<close>: \<open>None\<close> for no error, \<open>Some msg\<close> for an error with that
  message; when the list is used up no further call fails), the failures of listings
  (see \<open>next_err\<close>), and the log of the calls made so far.
\<close>

datatype call =
    ContainerCreate string
  | ContainerDelete string
  | OpenBucket string
  | BucketClose
  | NewWriter string
  | WriterWrite string
  | WriterClose string
  | NewReader string
  | ReaderCopy string
  | ReaderClose string

record blob =
  ContentType :: string
  body :: string

record world =
  blobs :: "(string \<times> blob) list"
  faults :: "string option list"
  list_faults :: "string \<Rightarrow> (nat \<times> string) option"
  calls :: "call list"

text \<open>One call: it is logged and takes the next answer of the service.\<close>

definition answer :: "call \<Rightarrow> world \<Rightarrow> error option \<times> world" where
  "answer c w =
     (case faults w of
        [] \<Rightarrow> (None, w\<lparr>calls := calls w @ [c]\<rparr>)
      | r # rs \<Rightarrow> (map_option SDK r, w\<lparr>faults := rs, calls := calls w @ [c]\<rparr>))"

text \<open>
  \<^verbatim>\<open>bucket.NewWriter(ctx, key, nil)\<close>, \<^verbatim>\<open>fmt.Fprintln(w, s)\<close> and \<^verbatim>\<open>w.Close()\<close>. A writer
  collects the bytes written to it; closing it stores them under its key, replacing a
  blob already there. \<^verbatim>\<open>Fprintln\<close> writes its operand followed by a newline.
\<close>

record writer =
  wkey :: string
  buf :: string

definition bucket_NewWriter :: "string \<Rightarrow> world \<Rightarrow> (error + writer) \<times> world" where
  "bucket_NewWriter key w =
     (case answer (NewWriter key) w of
        (Some err, w') \<Rightarrow> (Inl err, w')
      | (None, w') \<Rightarrow> (Inr \<lparr>wkey = key, buf = []\<rparr>, w'))"

definition Fprintln :: "writer \<Rightarrow> string \<Rightarrow> world \<Rightarrow> (error + writer) \<times> world" where
  "Fprintln wr s w =
     (case answer (WriterWrite (s @ [newline])) w of
        (Some err, w') \<Rightarrow> (Inl err, w')
      | (None, w') \<Rightarrow> (Inr (wr\<lparr>buf := buf wr @ s @ [newline]\<rparr>), w'))"

definition writer_Close :: "(string \<Rightarrow> string) \<Rightarrow> writer \<Rightarrow> world \<Rightarrow> error option \<times> world" where
  "writer_Close detect wr w =
     (case answer (WriterClose (wkey wr)) w of
        (Some err, w') \<Rightarrow> (Some err, w')
      | (None, w') \<Rightarrow>
          (None, w'\<lparr>blobs := AList.update (wkey wr)
                                \<lparr>ContentType = detect (buf wr), body = buf wr\<rparr> (blobs w')\<rparr>))"

text \<open>
  \<^verbatim>\<open>bucket.NewReader(ctx, key, nil)\<close>: besides the failures of the service, it fails when
  no blob is stored under the key.
\<close>

definition bucket_NewReader :: "string \<Rightarrow> world \<Rightarrow> (error + blob) \<times> world" where
  "bucket_NewReader key w =
     (case answer (NewReader key) w of
        (Some err, w') \<Rightarrow> (Inl err, w')
      | (None, w') \<Rightarrow>
          (case map_of (blobs w') key of
             None \<Rightarrow> (Inl (SDK ''NotFound''), w')
           | Some b \<Rightarrow> (Inr b, w')))"

text \<open>
  What the Go runtime and the libraries compute and the program only passes on: the
  text \<^verbatim>\<open>%q\<close> prints for a string, whether \<^verbatim>\<open>url.Parse\<close> accepts a URL, the result of
  \<^verbatim>\<open>azureblob.NewCredential\<close> for the two constants of the program, and the content type
  the library gives to the bytes of a blob written without options.
\<close>

record runtime =
  quote :: "string \<Rightarrow> string"
  url_Parse :: "string \<Rightarrow> bool"
  NewCredential :: "string option"
  DetectContentType :: "string \<Rightarrow> string"

text \<open>The flags (package variables set by cobra) and the constant \<^verbatim>\<open>accountName\<close>.\<close>

record flags =
  containerName :: string
  blobKey :: string
  blobValue :: string
  blobPrefix :: string

definition accountName :: string where
  "accountName = ''ENTER_YOUR_ACCOUNT_NAME''"

text \<open>
  How a run ends: the function of the command returns; or \<^verbatim>\<open>log.Fatal(err)\<close> inside the
  command prints the error and calls \<^verbatim>\<open>os.Exit(1)\<close> there, so that deferred calls do not
  run; or the program panics (a nil pointer is dereferenced). \<open>stdout\<close> holds the text
  printed on standard output, one element for each call that prints.
\<close>

datatype ending = Returned | Fatal error | Panic

record proc =
  stdout :: "string list"
  ending :: ending

definition exit_code :: "proc \<Rightarrow> int" where
  "exit_code p = (case ending p of Returned \<Rightarrow> 0 | Fatal err \<Rightarrow> 1 | Panic \<Rightarrow> 2)"

section \<open>The commands\<close>

text \<open>
  \<^verbatim>\<open>createContainerCmd\<close> and \<^verbatim>\<open>deleteContainerCmd\<close>. The error of \<^verbatim>\<open>url.Parse\<close> is dropped
  (\<^verbatim>\<open>URL, _ := url.Parse(...)\<close>); when the URL is not accepted \<^verbatim>\<open>URL\<close> is nil and \<^verbatim>\<open>*URL\<close>
  panics. Any error of \<^verbatim>\<open>containerURL.Create\<close> or \<^verbatim>\<open>containerURL.Delete\<close> goes to
  \<^verbatim>\<open>log.Fatal\<close>.
\<close>

definition container_URL :: "flags \<Rightarrow> string" where
  "container_URL fl = ''https://'' @ accountName @ ''.blob.core.windows.net/'' @ containerName fl"

definition createContainerCmd :: "runtime \<Rightarrow> flags \<Rightarrow> world \<Rightarrow> proc \<times> world" where
  "createContainerCmd rt fl w =
     (if \<not> url_Parse rt (container_URL fl) then (\<lparr>stdout = [], ending = Panic\<rparr>, w)
      else
        let out = [''Creating a container named '' @ quote rt (containerName fl) @ [newline]] in
        case answer (ContainerCreate (containerName fl)) w of
          (Some err, w') \<Rightarrow> (\<lparr>stdout = out, ending = Fatal err\<rparr>, w')
        | (None, w') \<Rightarrow>
            (\<lparr>stdout = out @ [''Successfully created container ''
                                @ quote rt (containerName fl) @ [newline]],
              ending = Returned\<rparr>, w'))"

definition deleteContainerCmd :: "runtime \<Rightarrow> flags \<Rightarrow> world \<Rightarrow> proc \<times> world" where
  "deleteContainerCmd rt fl w =
     (if \<not> url_Parse rt (container_URL fl) then (\<lparr>stdout = [], ending = Panic\<rparr>, w)
      else
        let out = [''Deleting a container named '' @ quote rt (containerName fl) @ [newline]] in
        case answer (ContainerDelete (containerName fl)) w of
          (Some err, w') \<Rightarrow> (\<lparr>stdout = out, ending = Fatal err\<rparr>, w')
        | (None, w') \<Rightarrow>
            (\<lparr>stdout = out @ [''Successfully deleted container ''
                                @ quote rt (containerName fl) @ [newline]],
              ending = Returned\<rparr>, w'))"

text \<open>
  \<^verbatim>\<open>writeCmd\<close>: the two flags are checked first; then the bucket is opened, a writer is
  made for the key, the value is written with \<^verbatim>\<open>Fprintln\<close>, the writer is closed, and
  the confirmation is printed. The deferred \<^verbatim>\<open>bucket.Close()\<close> runs when the function
  returns, and its result is not looked at.
\<close>

definition key_not_set :: error where
  \<open>key_not_set = Errorf ''flag "--blob-key" should be set''\<close>

definition value_not_set :: error where
  \<open>value_not_set = Errorf ''flag "--blob-value" should be set''\<close>

definition writeCmd :: "runtime \<Rightarrow> flags \<Rightarrow> world \<Rightarrow> proc \<times> world" where
  "writeCmd rt fl w =
     (if blobKey fl = [] then (\<lparr>stdout = [], ending = Fatal key_not_set\<rparr>, w)
      else if blobValue fl = [] then (\<lparr>stdout = [], ending = Fatal value_not_set\<rparr>, w)
      else
        case answer (OpenBucket (containerName fl)) w of
          (Some err, w1) \<Rightarrow> (\<lparr>stdout = [], ending = Fatal err\<rparr>, w1)
        | (None, w1) \<Rightarrow>
        (case bucket_NewWriter (blobKey fl) w1 of
          (Inl err, w2) \<Rightarrow> (\<lparr>stdout = [], ending = Fatal err\<rparr>, w2)
        | (Inr wr, w2) \<Rightarrow>
        (case Fprintln wr (blobValue fl) w2 of
          (Inl err, w3) \<Rightarrow> (\<lparr>stdout = [], ending = Fatal err\<rparr>, w3)
        | (Inr wr', w3) \<Rightarrow>
        (case writer_Close (DetectContentType rt) wr' w3 of
          (Some err, w4) \<Rightarrow> (\<lparr>stdout = [], ending = Fatal err\<rparr>, w4)
        | (None, w4) \<Rightarrow>
            (\<lparr>stdout = [''Successfully written '' @ quote rt (blobValue fl) @ '' to ''
                         @ quote rt (blobKey fl) @ [newline]],
              ending = Returned\<rparr>,
             snd (answer BucketClose w4))))))"

text \<open>
  \<^verbatim>\<open>readCmd\<close>: the key is checked first; then the bucket is opened, a reader is made, the
  content type and an empty line are printed, the blob is copied to standard output, and
  the confirmation is printed. The deferred \<^verbatim>\<open>r.Close()\<close> and \<^verbatim>\<open>bucket.Close()\<close> run when
  the function returns. A copy that fails is taken to have printed nothing of the blob.
\<close>

definition readCmd :: "runtime \<Rightarrow> flags \<Rightarrow> world \<Rightarrow> proc \<times> world" where
  "readCmd rt fl w =
     (if blobKey fl = [] then (\<lparr>stdout = [], ending = Fatal key_not_set\<rparr>, w)
      else
        case answer (OpenBucket (containerName fl)) w of
          (Some err, w1) \<Rightarrow> (\<lparr>stdout = [], ending = Fatal err\<rparr>, w1)
        | (None, w1) \<Rightarrow>
        (case bucket_NewReader (blobKey fl) w1 of
          (Inl err, w2) \<Rightarrow> (\<lparr>stdout = [], ending = Fatal err\<rparr>, w2)
        | (Inr r, w2) \<Rightarrow>
        (let out = [''Content-Type: '' @ ContentType r @ [newline], [newline]] in
         case answer (ReaderCopy (blobKey fl)) w2 of
          (Some err, w3) \<Rightarrow> (\<lparr>stdout = out, ending = Fatal err\<rparr>, w3)
        | (None, w3) \<Rightarrow>
            (\<lparr>stdout = out @ [body r, ''Successfully read from '' @ quote rt (blobKey fl)
                                        @ [newline]],
              ending = Returned\<rparr>,
             snd (answer BucketClose (snd (answer (ReaderClose (blobKey fl)) w3)))))))"

text \<open>
  \<^verbatim>\<open>listCmd\<close>: the bucket is opened and narrowed to the keys under \<^verbatim>\<open>--blob-prefix\<close>; the
  closure lists it from the empty prefix with no indent; the confirmation is printed.
  Two deferred \<^verbatim>\<open>bucket.Close()\<close> run when the function returns.
\<close>

definition open_bucket :: "world \<Rightarrow> bucket" where
  "open_bucket w = \<lparr>keys = map fst (blobs w), next_err = list_faults w\<rparr>"

definition listCmd :: "runtime \<Rightarrow> flags \<Rightarrow> world \<Rightarrow> proc \<times> world" where
  "listCmd rt fl w =
     (case answer (OpenBucket (containerName fl)) w of
        (Some err, w1) \<Rightarrow> (\<lparr>stdout = [], ending = Fatal err\<rparr>, w1)
      | (None, w1) \<Rightarrow>
          (case list CHR ''/'' (PrefixedBucket (open_bucket w1) (blobPrefix fl)) [] [] of
             (out, Some err) \<Rightarrow> (\<lparr>stdout = out, ending = Fatal err\<rparr>, w1)
           | (out, None) \<Rightarrow>
               (\<lparr>stdout = out @ [''Successfully listed from '' @ quote rt (blobPrefix fl)
                                        @ [newline]],
                 ending = Returned\<rparr>,
                snd (answer BucketClose (snd (answer BucketClose w1))))))"

text \<open>
  The command line as cobra hands it on: either it is rejected (unknown command or flag)
  and \<^verbatim>\<open>rootCmd.Execute()\<close> returns an error without running a command, or one of the five
  commands runs with its flags set. \<^verbatim>\<open>init\<close> ends the process with \<^verbatim>\<open>log.Fatal\<close> when the
  credential cannot be made. \<^verbatim>\<open>main\<close> calls \<^verbatim>\<open>Execute()\<close> and drops its result.
\<close>

datatype command = CreateContainer | DeleteContainer | WriteBlob | ReadBlob | ListBlobs

datatype cmdline = Rejected string | Invoke command flags

definition Run :: "runtime \<Rightarrow> command \<Rightarrow> flags \<Rightarrow> world \<Rightarrow> proc \<times> world" where
  "Run rt c fl w =
     (case c of
        CreateContainer \<Rightarrow> createContainerCmd rt fl w
      | DeleteContainer \<Rightarrow> deleteContainerCmd rt fl w
      | WriteBlob \<Rightarrow> writeCmd rt fl w
      | ReadBlob \<Rightarrow> readCmd rt fl w
      | ListBlobs \<Rightarrow> listCmd rt fl w)"

definition Execute :: "runtime \<Rightarrow> cmdline \<Rightarrow> world \<Rightarrow> error option \<times> proc \<times> world" where
  "Execute rt cl w =
     (case cl of
        Rejected msg \<Rightarrow> (Some (Errorf msg), \<lparr>stdout = [], ending = Returned\<rparr>, w)
      | Invoke c fl \<Rightarrow> (None, Run rt c fl w))"

definition main :: "runtime \<Rightarrow> cmdline \<Rightarrow> world \<Rightarrow> proc \<times> world" where
  "main rt cl w =
     (case NewCredential rt of
        Some msg \<Rightarrow> (\<lparr>stdout = [], ending = Fatal (SDK msg)\<rparr>, w)
      | None \<Rightarrow> snd (Execute rt cl w))"


section \<open>Notions used to state the properties of the commands\<close>


fun first_error :: "string option list \<Rightarrow> string option" where
  "first_error [] = None"
| "first_error (None # rs) = first_error rs"
| "first_error (Some msg # rs) = Some msg"

fun checked_calls :: "command \<Rightarrow> nat" where
  "checked_calls CreateContainer = 1"
| "checked_calls DeleteContainer = 1"
| "checked_calls WriteBlob = 4"
| "checked_calls ReadBlob = 3"
| "checked_calls ListBlobs = 1"

fun confirmation :: "runtime \<Rightarrow> command \<Rightarrow> flags \<Rightarrow> string" where
  "confirmation rt CreateContainer fl =
     ''Successfully created container '' @ quote rt (containerName fl) @ [newline]"
| "confirmation rt DeleteContainer fl =
     ''Successfully deleted container '' @ quote rt (containerName fl) @ [newline]"
| "confirmation rt WriteBlob fl =
     ''Successfully written '' @ quote rt (blobValue fl) @ '' to '' @ quote rt (blobKey fl)
       @ [newline]"
| "confirmation rt ReadBlob fl = ''Successfully read from '' @ quote rt (blobKey fl) @ [newline]"
| "confirmation rt ListBlobs fl =
     ''Successfully listed from '' @ quote rt (blobPrefix fl) @ [newline]"


definition succeeds :: "runtime \<Rightarrow> command \<Rightarrow> flags \<Rightarrow> world \<Rightarrow> bool" where
  "succeeds rt c fl w =
     (NewCredential rt = None \<and>
      first_error (take (checked_calls c) (faults w)) = None \<and>
      (case c of
         CreateContainer \<Rightarrow> url_Parse rt (container_URL fl)
       | DeleteContainer \<Rightarrow> url_Parse rt (container_URL fl)
       | WriteBlob \<Rightarrow> blobKey fl \<noteq> [] \<and> blobValue fl \<noteq> []
       | ReadBlob \<Rightarrow> blobKey fl \<noteq> [] \<and> map_of (blobs w) (blobKey fl) \<noteq> None
       | ListBlobs \<Rightarrow>
           snd (list CHR ''/'' (PrefixedBucket (open_bucket w) (blobPrefix fl)) [] []) = None))"

section \<open>Inputs of the examples\<close>

text \<open>
  A runtime for the examples: \<open>plain_quote\<close> is what \<^verbatim>\<open>%q\<close> prints for a string of
  printable ASCII characters without double quote and backslash, as the strings of the
  examples are. Flags as the examples set them, with and without a key. A service with no blobs that gives the answers \<open>ans\<close>. The answers of a
  service that throttles the first three attempts to store a blob (new writer, write,
  close) at their last call and lets the fourth succeed.
\<close>

definition plain_quote :: "string \<Rightarrow> string" where
  "plain_quote s = [CHR 0x22] @ s @ [CHR 0x22]"

definition accept_url :: "string \<Rightarrow> bool" where
  "accept_url u = True"

definition text_plain :: "string \<Rightarrow> string" where
  "text_plain bytes = ''text/plain; charset=utf-8''"

definition rt0 :: runtime where
  "rt0 = \<lparr>quote = plain_quote, url_Parse = accept_url, NewCredential = None,
          DetectContentType = text_plain\<rparr>"

definition fl0 :: flags where
  "fl0 = \<lparr>containerName = ''c'', blobKey = ''k'', blobValue = ''v'', blobPrefix = []\<rparr>"

definition fl_nokey :: flags where
  "fl_nokey = \<lparr>containerName = ''c'', blobKey = [], blobValue = ''v'', blobPrefix = []\<rparr>"

definition service :: "string option list \<Rightarrow> world" where
  "service ans = \<lparr>blobs = [], faults = ans, list_faults = no_fault, calls = []\<rparr>"

definition throttled_thrice :: "string option list" where
  "throttled_thrice =
     [None] @ [None, None, Some ''Throttled''] @ [None, None, Some ''Throttled'']
       @ [None, None, Some ''Throttled''] @ [None, None, None]"

text \<open>
  A listing whose second call of \<^verbatim>\<open>iter.Next\<close> at the outermost level fails, and a key
  that lies \<open>n\<close> directories deep.
\<close>

definition fails_after_one :: "string \<Rightarrow> (nat \<times> string) option" where
  "fails_after_one p = (if p = [] then Some (1, ''Throttled'') else None)"

definition deep_key :: "nat \<Rightarrow> string" where
  "deep_key n = concat (replicate n ''a/'') @ ''x''"

text \<open>
  A service that holds (empty) blobs under the keys \<open>ks\<close> and answers every call without
  error; flags with a blob prefix; a key with a newline in it; and a listing that fails
  inside the directory \<open>b/\<close>, at its first call.
\<close>

definition holding :: "string list \<Rightarrow> world" where
  "holding ks = \<lparr>blobs = map (\<lambda>k. (k, \<lparr>ContentType = [], body = []\<rparr>)) ks, faults = [],
                 list_faults = no_fault, calls = []\<rparr>"

definition fl_prefix :: flags where
  "fl_prefix = \<lparr>containerName = ''c'', blobKey = [], blobValue = [], blobPrefix = ''a/b/''\<rparr>"

definition two_line_key :: string where
  "two_line_key = [CHR ''a'', newline, CHR ''b'']"

definition fails_in_b :: "string \<Rightarrow> (nat \<times> string) option" where
  "fails_in_b p = (if p = ''b/'' then Some (0, ''Timeout'') else None)"

section \<open>Properties of the listing\<close>

declare list.simps [simp del]
declare visited.simps [simp del]
declare events.simps [simp del]

subsection \<open>One level\<close>

lemma entry_leaf: "\<not> IsDir (entry d p k) \<Longrightarrow> entry d p k = \<lparr>Key = k, IsDir = False\<rparr>"
  by (simp add: entry_def Let_def split: if_splits)

lemma entry_dir_form:
  assumes "prefix p k" and "IsDir (entry d p k)"
  obtains seg t where "k = p @ seg @ d # t" and "d \<notin> set seg"
    and "entry d p k = \<lparr>Key = p @ seg @ [d], IsDir = True\<rparr>"
proof -
  obtain rest where k: "k = p @ rest" using assms(1) by (auto simp: prefix_def)
  have d: "d \<in> set rest" using assms(2) k by (auto simp: entry_def split: if_splits)
  let ?seg = "takeWhile (\<lambda>c. c \<noteq> d) rest"
  have e: "entry d p k = \<lparr>Key = p @ ?seg @ [d], IsDir = True\<rparr>"
    using d k by (simp add: entry_def)
  have "dropWhile (\<lambda>c. c \<noteq> d) rest \<noteq> []" using d by auto
  moreover have "hd (dropWhile (\<lambda>c. c \<noteq> d) rest) = d"
    using d hd_dropWhile[of "\<lambda>c. c \<noteq> d" rest] by auto
  ultimately obtain t where "dropWhile (\<lambda>c. c \<noteq> d) rest = d # t"
    by (cases "dropWhile (\<lambda>c. c \<noteq> d) rest") auto
  then have "rest = ?seg @ d # t" by (metis takeWhile_dropWhile_id)
  then have "k = p @ ?seg @ d # t" using k by simp
  moreover have "d \<notin> set ?seg" by (auto dest: set_takeWhileD)
  ultimately show ?thesis using e that by blast
qed

lemma entry_of_dir_key:
  assumes "d \<notin> set seg"
  shows "entry d p (p @ seg @ d # t) = \<lparr>Key = p @ seg @ [d], IsDir = True\<rparr>"
proof -
  have "takeWhile (\<lambda>c. c \<noteq> d) (seg @ d # t) = seg"
    using assms by (induction seg) auto
  then show ?thesis by (simp add: entry_def)
qed

lemma entry_of_leaf_key:
  assumes "d \<notin> set seg"
  shows "entry d p (p @ seg) = \<lparr>Key = p @ seg, IsDir = False\<rparr>"
  using assms by (simp add: entry_def)

lemma entry_dir_iff:
  assumes "prefix p k0" and "IsDir (entry d p k0)"
  shows "prefix (Key (entry d p k0)) k \<longleftrightarrow> prefix p k \<and> entry d p k = entry d p k0"
proof -
  from assms obtain seg t where k0: "k0 = p @ seg @ d # t" and seg: "d \<notin> set seg"
    and e0: "entry d p k0 = \<lparr>Key = p @ seg @ [d], IsDir = True\<rparr>"
    by (rule entry_dir_form)
  show ?thesis
  proof
    assume "prefix (Key (entry d p k0)) k"
    then obtain u where "k = (p @ seg @ [d]) @ u" using e0 by (auto simp: prefix_def)
    then have k: "k = p @ seg @ d # u" by simp
    have "entry d p k = \<lparr>Key = p @ seg @ [d], IsDir = True\<rparr>"
      unfolding k using seg by (rule entry_of_dir_key)
    then show "prefix p k \<and> entry d p k = entry d p k0" using e0 k by simp
  next
    assume a: "prefix p k \<and> entry d p k = entry d p k0"
    then have "IsDir (entry d p k)" using assms(2) by simp
    from entry_dir_prefix(1)[OF conjunct1[OF a] this] show "prefix (Key (entry d p k0)) k"
      using a by simp
  qed
qed

lemma distinct_buildListing: "distinct (buildListing ks p d)"
  by (simp add: buildListing_def)

lemma buildListing_prefix:
  assumes "obj \<in> set (buildListing ks p d)"
  shows "prefix p (Key obj)"
proof -
  from assms obtain k where k: "prefix p k" "obj = entry d p k"
    by (auto simp: set_buildListing)
  then show ?thesis by (auto simp: entry_def Let_def)
qed

subsection \<open>The printed text and the visited objects\<close>

lemma for_each_all_ok:
  assumes "\<And>x. x \<in> set xs \<Longrightarrow> snd (f x) = None"
  shows "for_each f (map Inr xs) = (concat (map (\<lambda>x. fst (f x)) xs), None)"
  using assms
proof (induction xs)
  case Nil
  show ?case by simp
next
  case (Cons x xs)
  have "snd (f x) = None" using Cons.prems by simp
  then obtain out where "f x = (out, None)" by (cases "f x") simp
  moreover have "for_each f (map Inr xs) = (concat (map (\<lambda>x. fst (f x)) xs), None)"
    using Cons by simp
  ultimately show ?case by simp
qed

lemma replicate_two_more: "replicate n c @ [c, c] = replicate (Suc (Suc n)) c"
  by (induction n) simp_all

text \<open>
  The body of the loop, for an object below which no listing fails: it prints the lines
  of the object's subtree and does not end the process.
\<close>

lemma list_no_fault:
  "(\<And>q. prefix p q \<Longrightarrow> next_err b q = None) \<Longrightarrow> indent = replicate (2 * n) CHR '' '' \<Longrightarrow>
   list d b p indent = (map line (visited d (keys b) p n), None)"
proof (induction d b p indent arbitrary: n rule: list.induct)
  case (1 d b p indent)
  let ?objs = "buildListing (keys b) p d"
  let ?body = "\<lambda>obj. let line = indent @ Key obj @ [newline] in
          if IsDir obj
          then (case list d b (Key obj) (indent @ ''  '') of (out, r) \<Rightarrow> (line # out, r))
          else ([line], None)"
  have "next_err b p = None" using "1.prems"(1) by simp
  then have iter: "List_iter b d p = map Inr ?objs" by (simp add: List_iter_def)
  have ind: "indent @ ''  '' = replicate (2 * Suc n) CHR '' ''"
    using "1.prems"(2) replicate_two_more[of "2 * n" "CHR '' ''"] by simp
  have body: "?body obj = (map line (subtree (visited d (keys b)) n obj), None)"
    if "obj \<in> set ?objs" for obj
  proof (cases "IsDir obj")
    case True
    have "Inr obj \<in> set (List_iter b d p)" using that iter by simp
    moreover have "next_err b q = None" if "prefix (Key obj) q" for q
      using "1.prems"(1) buildListing_prefix[OF \<open>obj \<in> set ?objs\<close>] that
      by (meson prefix_order.order_trans)
    ultimately have "list d b (Key obj) (indent @ ''  '')
                     = (map line (visited d (keys b) (Key obj) (Suc n)), None)"
      using "1.IH"[OF _ refl True _ ind] by blast
    then show ?thesis using True "1.prems"(2) by (simp add: line_def subtree_def)
  next
    case False
    then show ?thesis using "1.prems"(2) by (simp add: line_def subtree_def)
  qed
  have "list d b p indent = for_each ?body (map Inr ?objs)"
    by (subst list.simps) (simp only: iter)
  also have "\<dots> = (concat (map (\<lambda>x. fst (?body x)) ?objs), None)"
    by (rule for_each_all_ok) (simp only: body snd_conv)
  also have "concat (map (\<lambda>x. fst (?body x)) ?objs)
     = concat (map (\<lambda>obj. map line (subtree (visited d (keys b)) n obj)) ?objs)"
    by (rule arg_cong[where f = concat], rule map_cong[OF refl]) (simp only: body fst_conv)
  also have "\<dots> = map line (visited d (keys b) p n)"
    by (subst visited.simps) (simp add: map_concat o_def)
  finally show ?case .
qed

lemma list_healthy:
  "list d (healthy ks) [] [] = (map line (visited d ks [] 0), None)"
  using list_no_fault[of "[]" "healthy ks" "[]" 0 d] by (simp add: healthy_def no_fault_def)

subsection \<open>Every key is a Leaf exactly once\<close>

lemma leaf_keys_concat: "leaf_keys (concat xss) = concat (map leaf_keys xss)"
  by (induction xss) (simp_all add: leaf_keys_def)

lemma distinct_concat_map:
  assumes "distinct xs" and "\<And>x. x \<in> set xs \<Longrightarrow> distinct (f x)"
    and "\<And>x y. x \<in> set xs \<Longrightarrow> y \<in> set xs \<Longrightarrow> x \<noteq> y \<Longrightarrow> set (f x) \<inter> set (f y) = {}"
  shows "distinct (concat (map f xs))"
  using assms
proof (induction xs)
  case Nil
  show ?case by simp
next
  case (Cons x xs)
  have "distinct (concat (map f xs))" using Cons by simp
  moreover have "distinct (f x)" using Cons.prems(2) by simp
  moreover have "set (f x) \<inter> set (f y) = {}" if "y \<in> set xs" for y
    using Cons.prems(1) Cons.prems(3)[of x y] that by auto
  ultimately show ?case by auto
qed

text \<open>
  Below a prefix, the Leaf objects visited are the keys with that prefix, each once. The
  keys below one object of a level are the keys that \<open>entry\<close> maps to this object, so
  different objects of a level have no key in common.
\<close>

lemma leaf_keys_visited:
  "distinct (leaf_keys (visited d ks p n)) \<and>
   set (leaf_keys (visited d ks p n)) = {k \<in> set ks. prefix p k}"
proof (induction d ks p n rule: visited.induct)
  case (1 d ks p n)
  let ?objs = "buildListing ks p d"
  let ?g = "\<lambda>obj. leaf_keys (subtree (visited d ks) n obj)"
  have lk: "leaf_keys (visited d ks p n) = concat (map ?g ?objs)"
    by (subst visited.simps) (simp add: leaf_keys_concat o_def)
  have g: "distinct (?g obj) \<and> set (?g obj) = {k \<in> set ks. prefix p k \<and> entry d p k = obj}"
    if obj: "obj \<in> set ?objs" for obj
  proof -
    from obj obtain k0 where k0: "k0 \<in> set ks" "prefix p k0" "obj = entry d p k0"
      by (auto simp: set_buildListing)
    show ?thesis
    proof (cases "IsDir obj")
      case True
      have "?g obj = leaf_keys (visited d ks (Key obj) (Suc n))"
        using True by (simp add: leaf_keys_def subtree_def)
      moreover have "prefix (Key obj) k \<longleftrightarrow> prefix p k \<and> entry d p k = obj" for k
        using entry_dir_iff[of p k0 d k] k0 True by simp
      ultimately show ?thesis using "1.IH"[OF obj True] by auto
    next
      case False
      then have e: "obj = \<lparr>Key = k0, IsDir = False\<rparr>" using k0 entry_leaf by simp
      have g0: "?g obj = [k0]" using e by (simp add: leaf_keys_def subtree_def)
      have "k = k0" if "entry d p k = obj" for k
        using that False entry_leaf[of d p k] e by simp
      then have "{k \<in> set ks. prefix p k \<and> entry d p k = obj} = {k0}"
        using k0 by blast
      then show ?thesis unfolding g0 by simp
    qed
  qed
  have "distinct (concat (map ?g ?objs))"
  proof (rule distinct_concat_map)
    show "distinct ?objs" by (rule distinct_buildListing)
    show "distinct (?g x)" if "x \<in> set ?objs" for x using g[OF that] by simp
    show "set (?g x) \<inter> set (?g y) = {}" if "x \<in> set ?objs" "y \<in> set ?objs" "x \<noteq> y" for x y
      using g[OF that(1)] g[OF that(2)] that(3) by auto
  qed
  moreover have "set (concat (map ?g ?objs)) = {k \<in> set ks. prefix p k}"
  proof -
    have "set (concat (map ?g ?objs)) = (\<Union>obj \<in> set ?objs. set (?g obj))" by simp
    also have "\<dots> = (\<Union>obj \<in> set ?objs. {k \<in> set ks. prefix p k \<and> entry d p k = obj})"
      using g by simp
    also have "\<dots> = {k \<in> set ks. prefix p k}" by (auto simp: set_buildListing)
    finally show ?thesis .
  qed
  ultimately show ?case unfolding lk by simp
qed

subsection \<open>The depth of a visited object\<close>

lemma count_list_notin: "x \<notin> set xs \<Longrightarrow> count_list xs x = 0"
  by (induction xs) auto

lemma visited_depth:
  "(m, obj) \<in> set (visited d ks p n) \<Longrightarrow>
   prefix p (Key obj) \<and>
   m + (if IsDir obj then 1 else 0) = n + count_list (drop (length p) (Key obj)) d"
proof (induction d ks p n arbitrary: m obj rule: visited.induct)
  case (1 d ks p n)
  from "1.prems" obtain top where top: "top \<in> set (buildListing ks p d)"
    and mem: "(m, obj) = (n, top) \<or> (IsDir top \<and> (m, obj) \<in> set (visited d ks (Key top) (Suc n)))"
    by (subst (asm) visited.simps) (auto simp: subtree_def split: if_splits)
  from top obtain k0 where k0: "k0 \<in> set ks" "prefix p k0" "top = entry d p k0"
    by (auto simp: set_buildListing)
  show ?case
  proof (cases "IsDir top")
    case False
    then have e: "top = \<lparr>Key = k0, IsDir = False\<rparr>" using k0 entry_leaf by simp
    have "d \<notin> set (drop (length p) k0)"
      using False k0 by (auto simp: entry_def Let_def split: if_splits)
    then have "count_list (drop (length p) k0) d = 0" by (rule count_list_notin)
    moreover have "(m, obj) = (n, top)" using mem False by simp
    ultimately show ?thesis using e k0 by simp
  next
    case True
    have "IsDir (entry d p k0)" using True k0(3) by simp
    with k0(2) obtain seg t where seg: "d \<notin> set seg"
      and "entry d p k0 = \<lparr>Key = p @ seg @ [d], IsDir = True\<rparr>"
      by (rule entry_dir_form)
    then have e: "top = \<lparr>Key = p @ seg @ [d], IsDir = True\<rparr>" using k0(3) by simp
    have c0: "count_list seg d = 0" using seg by (rule count_list_notin)
    from mem show ?thesis
    proof
      assume "(m, obj) = (n, top)"
      then show ?thesis using e c0 by simp
    next
      assume "IsDir top \<and> (m, obj) \<in> set (visited d ks (Key top) (Suc n))"
      then have "(m, obj) \<in> set (visited d ks (Key top) (Suc n))" by simp
      from "1.IH"[OF top True this]
      have pre: "prefix (Key top) (Key obj)"
        and m: "m + (if IsDir obj then 1 else 0)
                = Suc n + count_list (drop (length (Key top)) (Key obj)) d"
        by simp_all
      from pre obtain u where u: "Key obj = p @ seg @ d # u" using e by (auto simp: prefix_def)
      have "drop (length (Key top)) (Key obj) = u" using e u by simp
      moreover have "count_list (drop (length p) (Key obj)) d = Suc (count_list u d)"
        using u c0 by simp
      ultimately show ?thesis using m u by simp
    qed
  qed
qed

lemma visited_depth_root:
  assumes "e \<in> set (visited d ks [] 0)"
  shows "fst e = depth d (snd e)"
proof -
  have "(fst e, snd e) \<in> set (visited d ks [] 0)" using assms by simp
  from visited_depth[OF this] show ?thesis by (simp add: depth_def)
qed

lemma key_visited:
  assumes "k \<in> set ks"
  shows "(count_list k d, \<lparr>Key = k, IsDir = False\<rparr>) \<in> set (visited d ks [] 0)"
proof -
  have "k \<in> set (leaf_keys (visited d ks [] 0))"
    using assms leaf_keys_visited[of d ks "[]" 0] by simp
  then obtain m obj where mem: "(m, obj) \<in> set (visited d ks [] 0)"
    and leaf: "\<not> IsDir obj" and key: "Key obj = k"
    by (auto simp: leaf_keys_def)
  from visited_depth[OF mem] leaf key have "m = count_list k d" by simp
  moreover have "obj = \<lparr>Key = k, IsDir = False\<rparr>" using leaf key by (cases obj) simp
  ultimately show ?thesis using mem by simp
qed

section \<open>Claims about the listing\<close>

text \<open>
  C1. For every set of keys and every delimiter, the listing covers every key exactly
  once: the list command on a bucket that holds the keys \<open>ks\<close> prints the lines of the
  visited objects and ends without error, and the Leaf objects among the visited ones
  carry the keys of \<open>ks\<close>, no key missing and no key twice. (The other lines are those of
  the Group objects, whose keys are prefixes ending in the delimiter.)
\<close>

theorem list_covers_every_key_once:
  "list d (healthy ks) [] [] = (map line (visited d ks [] 0), None) \<and>
   distinct (leaf_keys (visited d ks [] 0)) \<and>
   set (leaf_keys (visited d ks [] 0)) = set ks"
  using list_healthy[of d ks] leaf_keys_visited[of d ks "[]" 0] by simp

text \<open>
  Every piece of text the closure prints on a bucket whose listings do not fail is one
  object's key followed by a newline, indented by two spaces for each level of the depth
  of that key.
\<close>

lemma list_indents_by_depth:
  "fst (list d (healthy ks) [] []) = listing_lines d ks"
proof -
  have "map line (visited d ks [] 0)
        = map (\<lambda>e. replicate (2 * depth d (snd e)) CHR '' '' @ Key (snd e) @ [newline])
              (visited d ks [] 0)"
    by (rule map_cong[OF refl]) (simp add: line_def visited_depth_root)
  then show ?thesis by (simp add: list_healthy o_def listing_lines_def)
qed

text \<open>
  C2. When the keys hold a key \<open>k = p @ seg\<close> and a longer key that starts with \<open>k\<close> and
  the delimiter, the listing of \<open>k\<close>'s level (prefix \<open>p\<close>) has \<open>k\<close> as a Leaf and, apart
  from it, the Group \<open>k @ [d]\<close>; and \<open>k\<close> is not among the keys listed below that Group.
\<close>

theorem key_equal_to_group_prefix_is_leaf:
  assumes "p @ seg \<in> set ks" and "d \<notin> set seg"
    and "k' \<in> set ks" and "prefix (p @ seg @ [d]) k'"
  shows "\<lparr>Key = p @ seg, IsDir = False\<rparr> \<in> set (buildListing ks p d) \<and>
         \<lparr>Key = p @ seg @ [d], IsDir = True\<rparr> \<in> set (buildListing ks p d) \<and>
         p @ seg \<notin> set (leaf_keys (visited d ks (p @ seg @ [d]) n))"
proof -
  have "entry d p (p @ seg) \<in> set (buildListing ks p d)"
    using assms(1) by (auto simp: set_buildListing)
  then have leaf: "\<lparr>Key = p @ seg, IsDir = False\<rparr> \<in> set (buildListing ks p d)"
    using entry_of_leaf_key[OF assms(2)] by simp
  from assms(4) obtain t where k': "k' = p @ seg @ d # t" by (auto simp: prefix_def)
  have "prefix p k'" using k' by simp
  then have "entry d p k' \<in> set (buildListing ks p d)"
    using assms(3) by (auto simp: set_buildListing)
  then have group: "\<lparr>Key = p @ seg @ [d], IsDir = True\<rparr> \<in> set (buildListing ks p d)"
    using entry_of_dir_key[OF assms(2)] k' by simp
  have "\<not> prefix (p @ seg @ [d]) (p @ seg)" by (auto simp: prefix_def)
  then have "p @ seg \<notin> set (leaf_keys (visited d ks (p @ seg @ [d]) n))"
    using leaf_keys_visited[of d ks "p @ seg @ [d]" n] by simp
  with leaf group show ?thesis by simp
qed

theorem key_equal_to_group_prefix_is_leaf_witness:
  "\<lparr>Key = ''a/b'', IsDir = False\<rparr>
     \<in> set (buildListing [''a/b'', ''a/c'', ''a/b/d'', ''x''] ''a/'' CHR ''/'') \<and>
   \<lparr>Key = ''a/b/'', IsDir = True\<rparr>
     \<in> set (buildListing [''a/b'', ''a/c'', ''a/b/d'', ''x''] ''a/'' CHR ''/'') \<and>
   ''a/b'' \<notin> set (leaf_keys (visited CHR ''/'' [''a/b'', ''a/c'', ''a/b/d'', ''x''] ''a/b/'' 2))"
  using key_equal_to_group_prefix_is_leaf
    [of "''a/''" "''b''" "[''a/b'', ''a/c'', ''a/b/d'', ''x'']" "CHR ''/''" "''a/b/d''" 2]
  by simp

subsection \<open>A listing that fails\<close>

text \<open>
  C5. One item that fails does end the rest. In the loop of the listing, of three objects
  with the second call of \<^verbatim>\<open>iter.Next\<close> failing, one line is printed and the error goes to
  \<^verbatim>\<open>log.Fatal\<close>: there are not three results, and the third object is never handled.
\<close>

theorem list_aborts_after_failure_counterexample:
  "list CHR ''/'' \<lparr>keys = [''a'', ''b'', ''c''], next_err = fails_after_one\<rparr> [] []
     = ([''a'' @ [newline]], Some (SDK ''Throttled''))"
  by (simp add: list.simps List_iter_def buildListing_def entry_def fails_after_one_def)

lemma cut_run_Nil [simp]: "cut_run b [] = ([], None)"
  by (simp add: cut_run_def)

lemma cut_run_Cons [simp]:
  "cut_run b (ev # evs) =
     (if fails b ev then ([], error_at b ev)
      else (case cut_run b evs of (out, r) \<Rightarrow> (printed [ev] @ out, r)))"
  by (cases ev) (simp_all add: cut_run_def)

lemma fails_error_at: "fails b ev \<Longrightarrow> error_at b ev \<noteq> None"
  by (cases ev) (auto split: option.splits)

lemma cut_run_append:
  "cut_run b (xs @ ys) =
     (case cut_run b xs of
        (out, Some e) \<Rightarrow> (out, Some e)
      | (out, None) \<Rightarrow> (case cut_run b ys of (out', r) \<Rightarrow> (out @ out', r)))"
proof (induction xs)
  case Nil
  show ?case by (simp split: prod.splits)
next
  case (Cons ev xs)
  show ?case
  proof (cases "fails b ev")
    case True
    then obtain e where "error_at b ev = Some e" using fails_error_at by blast
    then show ?thesis using True by simp
  next
    case False
    then show ?thesis using Cons.IH
      by (simp split: prod.splits option.splits)
  qed
qed

text \<open>
  The loop from object number \<open>i\<close> on, when the body does for every object what the cut
  run of the events below that object says.
\<close>

lemma loop_cut:
  assumes "\<And>obj. Inr obj \<in> set (iter_from (next_err b p) i os) \<Longrightarrow>
             f obj = (case cut_run b (if IsDir obj then below (Key obj) (Suc n) else []) of
                        (out, r) \<Rightarrow> (line (n, obj) # out, r))"
  shows "for_each f (iter_from (next_err b p) i os) = cut_run b (steps below p n i os)"
  using assms
proof (induction os arbitrary: i)
  case Nil
  show ?case by (simp add: iter_from_def split: option.splits)
next
  case (Cons obj os)
  show ?case
  proof (cases "fails b (Next p i)")
    case True
    then obtain j msg where f: "next_err b p = Some (j, msg)" "j \<le> i"
      by (auto split: option.splits)
    then show ?thesis by (simp add: iter_from_def)
  next
    case False
    then have it: "iter_from (next_err b p) i (obj # os)
                   = Inr obj # iter_from (next_err b p) (Suc i) os"
      by (auto simp: iter_from_def take_Cons' Suc_diff_Suc split: option.splits nat.splits)
    have fo: "f obj = (case cut_run b (if IsDir obj then below (Key obj) (Suc n) else []) of
                        (out, r) \<Rightarrow> (line (n, obj) # out, r))"
      using Cons.prems[of obj] it by simp
    have "for_each f (iter_from (next_err b p) (Suc i) os)
          = cut_run b (steps below p n (Suc i) os)"
      using Cons.prems it by (intro Cons.IH) simp
    then show ?thesis using False fo it
      by (simp add: cut_run_append split: prod.splits option.splits)
  qed
qed

lemma list_cut_run:
  "list d b p (replicate (2 * n) CHR '' '') = cut_run b (events d (keys b) p n)"
proof (induction d b p "replicate (2 * n) CHR '' ''" arbitrary: n rule: list.induct)
  case (1 d b p)
  let ?indent = "replicate (2 * n) CHR '' ''"
  let ?objs = "buildListing (keys b) p d"
  let ?f = "\<lambda>obj. let line = ?indent @ Key obj @ [newline] in
          if IsDir obj
          then (case list d b (Key obj) (?indent @ ''  '') of (out, r) \<Rightarrow> (line # out, r))
          else ([line], None)"
  have iter: "List_iter b d p = iter_from (next_err b p) 0 ?objs"
    by (simp add: List_iter_def iter_from_def split: option.splits)
  have ind: "?indent @ ''  '' = replicate (2 * Suc n) CHR '' ''"
    using replicate_two_more[of "2 * n" "CHR '' ''"] by simp
  have f: "?f obj = (case cut_run b (if IsDir obj then events d (keys b) (Key obj) (Suc n) else []) of
                       (out, r) \<Rightarrow> (line (n, obj) # out, r))"
    if "Inr obj \<in> set (iter_from (next_err b p) 0 ?objs)" for obj
  proof (cases "IsDir obj")
    case True
    have "Inr obj \<in> set (List_iter b d p)" using that iter by simp
    from "1.hyps"[OF this refl True ind]
    have "list d b (Key obj) (replicate (2 * Suc n) CHR '' '')
          = cut_run b (events d (keys b) (Key obj) (Suc n))" .
    then have "list d b (Key obj) (?indent @ ''  '')
          = cut_run b (events d (keys b) (Key obj) (Suc n))"
      by (simp only: ind)
    then show ?thesis using True by (simp add: line_def del: replicate_Suc)
  next
    case False
    then show ?thesis by (simp add: line_def)
  qed
  have "list d b p ?indent = for_each ?f (iter_from (next_err b p) 0 ?objs)"
    by (subst list.simps) (simp only: iter)
  also have "\<dots> = cut_run b (steps (events d (keys b)) p n 0 ?objs)"
    using f by (rule loop_cut)
  also have "\<dots> = cut_run b (events d (keys b) p n)"
    by (subst events.simps) simp
  finally show ?case .
qed

lemma printed_append: "printed (xs @ ys) = printed xs @ printed ys"
  by (induction xs rule: printed.induct) simp_all

lemma printed_steps:
  "printed (steps below p n i objs) =
     concat (map (\<lambda>obj. line (n, obj) # printed (if IsDir obj then below (Key obj) (Suc n) else []))
                 objs)"
  by (induction objs arbitrary: i) (simp_all add: printed_append)

lemma printed_events: "printed (events d ks p n) = map line (visited d ks p n)"
proof (induction d ks p n rule: visited.induct)
  case (1 d ks p n)
  have "printed (if IsDir obj then events d ks (Key obj) (Suc n) else [])
        = map line (if IsDir obj then visited d ks (Key obj) (Suc n) else [])"
    if "obj \<in> set (buildListing ks p d)" for obj
    using "1.IH"[OF that] by simp
  then have "concat (map (\<lambda>obj. line (n, obj) #
                 printed (if IsDir obj then events d ks (Key obj) (Suc n) else []))
               (buildListing ks p d))
        = concat (map (\<lambda>obj. map line (subtree (visited d ks) n obj)) (buildListing ks p d))"
    by (intro arg_cong[where f = concat] map_cong[OF refl]) (simp add: subtree_def)
  then show ?case
    by (subst events.simps, subst visited.simps) (simp add: printed_steps map_concat o_def)
qed

text \<open>
  C5 as amended. For every bucket, whatever calls of \<^verbatim>\<open>iter.Next\<close> fail in it and at
  whatever depth of the recursion, the listing is the listing without failures cut at
  the first call that fails: the lines printed before that call are printed, in order,
  nothing after it is handled, and the error of that call ends the whole process
  (\<^verbatim>\<open>log.Fatal\<close>); when no call fails, the lines of all visited objects are printed and the
  listing ends without error.
\<close>

theorem list_ends_at_first_failing_call:
  "list d b p (replicate (2 * n) CHR '' '') = cut_run b (events d (keys b) p n) \<and>
   printed (events d (keys b) p n) = map line (visited d (keys b) p n)"
  using list_cut_run[of d b p n] printed_events[of d "keys b" p n] by simp

theorem list_ends_at_first_failing_call_witness:
  "list CHR ''/'' \<lparr>keys = [''a'', ''b/c'', ''d''], next_err = fails_in_b\<rparr> []
        (replicate (2 * 0) CHR '' '')
     = ([''a'' @ [newline], ''b/'' @ [newline]], Some (SDK ''Timeout'')) \<and>
   map line (visited CHR ''/'' [''a'', ''b/c'', ''d''] [] 0)
     = [''a'' @ [newline], ''b/'' @ [newline], ''  b/c'' @ [newline], ''d'' @ [newline]]"
  using list_ends_at_first_failing_call
    [of "CHR ''/''" "\<lparr>keys = [''a'', ''b/c'', ''d''], next_err = fails_in_b\<rparr>" "[]" 0]
  by (simp add: events.simps visited.simps subtree_def buildListing_def entry_def fails_in_b_def
      line_def numeral_2_eq_2)

subsection \<open>Depth\<close>

lemma count_deep_key: "count_list (deep_key n) CHR ''/'' = n"
  by (induction n) (simp_all add: deep_key_def)

lemma key_line_printed:
  assumes "k \<in> set ks"
  shows "snd (list d (healthy ks) [] []) = None \<and>
         replicate (2 * count_list k d) CHR '' '' @ k @ [newline]
           \<in> set (fst (list d (healthy ks) [] []))"
proof -
  have "line (count_list k d, \<lparr>Key = k, IsDir = False\<rparr>) \<in> line ` set (visited d ks [] 0)"
    using key_visited[OF assms, of d] by (rule imageI)
  then show ?thesis by (simp add: list_healthy line_def)
qed

text \<open>
  C7. The closure has no bound on the depth of its recursion and no error of its own: a
  key 1001 directories deep, beyond the bound of 1000 the claim names, is listed without
  any error, indented by 2002 spaces.
\<close>

theorem list_has_no_depth_cap_counterexample:
  "snd (list CHR ''/'' (healthy [deep_key 1001]) [] []) = None \<and>
   replicate (2 * 1001) CHR '' '' @ deep_key 1001 @ [newline]
     \<in> set (fst (list CHR ''/'' (healthy [deep_key 1001]) [] []))"
proof -
  have "deep_key 1001 \<in> set [deep_key 1001]" by simp
  from key_line_printed[OF this, of "CHR ''/''"] show ?thesis
    by (simp only: count_deep_key)
qed

text \<open>
  C7 as amended. For every set of keys the listing ends without error and lists every key
  at its full depth, however deep: a key with \<open>n\<close> delimiters is printed with \<open>2 * n\<close>
  spaces of indent. The recursion ends because every call has a longer prefix than its
  caller and no prefix is longer than the longest key (the termination proof of \<open>list\<close>).
\<close>

theorem list_descends_to_full_depth:
  assumes "k \<in> set ks"
  shows "snd (list d (healthy ks) [] []) = None \<and>
         replicate (2 * count_list k d) CHR '' '' @ k @ [newline]
           \<in> set (fst (list d (healthy ks) [] []))"
  using assms by (rule key_line_printed)

theorem list_descends_to_full_depth_witness:
  "''a/b/c'' \<in> set [''a/b/c'', ''x''] \<and>
   snd (list CHR ''/'' (healthy [''a/b/c'', ''x'']) [] []) = None \<and>
   replicate (2 * count_list ''a/b/c'' CHR ''/'') CHR '' '' @ ''a/b/c'' @ [newline]
     \<in> set (fst (list CHR ''/'' (healthy [''a/b/c'', ''x'']) [] []))"
proof -
  have h: "''a/b/c'' \<in> set [''a/b/c'', ''x'']" by simp
  from list_descends_to_full_depth[OF h, of "CHR ''/''"] h show ?thesis by blast
qed

section \<open>Properties of the commands\<close>

lemma answer_cases:
  "answer c w = (case faults w of
        [] \<Rightarrow> (None, w\<lparr>calls := calls w @ [c]\<rparr>)
      | None # rs \<Rightarrow> (None, w\<lparr>faults := rs, calls := calls w @ [c]\<rparr>)
      | Some msg # rs \<Rightarrow> (Some (SDK msg), w\<lparr>faults := rs, calls := calls w @ [c]\<rparr>))"
  by (simp add: answer_def split: list.splits option.splits)

lemma answer_error: "answer c w = (Some err, w') \<Longrightarrow> \<exists>msg. err = SDK msg"
  by (auto simp: answer_def split: list.splits)

lemma key_not_set_neq [simp]:
  "key_not_set \<noteq> SDK msg" "SDK msg \<noteq> key_not_set"
  "key_not_set \<noteq> value_not_set" "value_not_set \<noteq> key_not_set"
  by (simp_all add: key_not_set_def value_not_set_def)

text \<open>
  C4. A write or a read with an empty blob key is rejected with the error made for the
  missing key before any call to the store: the service is left as it was (no call is
  logged, no answer is used up), nothing is tried again, and the error ends the run at
  once. With a key that is not empty this rejection does not occur: a read then ends with
  no error made by the program itself, and so does a write with a value that is not empty
  (a write with a key and an empty value is rejected by the second check, with the error
  for the missing value).
\<close>

theorem empty_key_rejected_before_any_call:
  "(blobKey fl = [] \<longrightarrow>
      writeCmd rt fl w = (\<lparr>stdout = [], ending = Fatal key_not_set\<rparr>, w) \<and>
      readCmd rt fl w = (\<lparr>stdout = [], ending = Fatal key_not_set\<rparr>, w)) \<and>
   (blobKey fl \<noteq> [] \<longrightarrow>
      ending (fst (writeCmd rt fl w)) \<noteq> Fatal key_not_set \<and>
      ending (fst (readCmd rt fl w)) \<noteq> Fatal key_not_set \<and>
      (\<forall>msg. ending (fst (readCmd rt fl w)) \<noteq> Fatal (Errorf msg)) \<and>
      (blobValue fl \<noteq> [] \<longrightarrow> (\<forall>msg. ending (fst (writeCmd rt fl w)) \<noteq> Fatal (Errorf msg))))"
proof (intro conjI impI allI)
  assume "blobKey fl = []"
  then show "writeCmd rt fl w = (\<lparr>stdout = [], ending = Fatal key_not_set\<rparr>, w)"
    by (simp add: writeCmd_def)
  show "readCmd rt fl w = (\<lparr>stdout = [], ending = Fatal key_not_set\<rparr>, w)"
    using \<open>blobKey fl = []\<close> by (simp add: readCmd_def)
next
  assume "blobKey fl \<noteq> []"
  then show "ending (fst (writeCmd rt fl w)) \<noteq> Fatal key_not_set"
    by (auto simp: writeCmd_def bucket_NewWriter_def Fprintln_def writer_Close_def
             split: prod.splits option.splits sum.splits dest!: answer_error)
next
  assume "blobKey fl \<noteq> []"
  then show "ending (fst (readCmd rt fl w)) \<noteq> Fatal key_not_set"
    by (auto simp: readCmd_def bucket_NewReader_def Let_def
             split: prod.splits option.splits sum.splits dest!: answer_error)
next
  fix msg
  assume "blobKey fl \<noteq> []"
  then show "ending (fst (readCmd rt fl w)) \<noteq> Fatal (Errorf msg)"
    by (auto simp: readCmd_def bucket_NewReader_def Let_def
             split: prod.splits option.splits sum.splits dest!: answer_error)
next
  fix msg
  assume "blobKey fl \<noteq> []" and "blobValue fl \<noteq> []"
  then show "ending (fst (writeCmd rt fl w)) \<noteq> Fatal (Errorf msg)"
    by (auto simp: writeCmd_def bucket_NewWriter_def Fprintln_def writer_Close_def
             split: prod.splits option.splits sum.splits dest!: answer_error)
qed

theorem empty_key_rejected_before_any_call_witness:
  "blobKey fl_nokey = [] \<and>
   writeCmd rt0 fl_nokey (service []) = (\<lparr>stdout = [], ending = Fatal key_not_set\<rparr>, service []) \<and>
   readCmd rt0 fl_nokey (service []) = (\<lparr>stdout = [], ending = Fatal key_not_set\<rparr>, service []) \<and>
   blobKey fl0 \<noteq> [] \<and> blobValue fl0 \<noteq> [] \<and>
   ending (fst (writeCmd rt0 fl0 (service []))) \<noteq> Fatal key_not_set \<and>
   ending (fst (readCmd rt0 fl0 (service []))) \<noteq> Fatal key_not_set \<and>
   ending (fst (readCmd rt0 fl0 (service []))) \<noteq> Fatal (Errorf ''x'') \<and>
   ending (fst (writeCmd rt0 fl0 (service []))) \<noteq> Fatal (Errorf ''x'')"
proof -
  have h1: "blobKey fl_nokey = []" by (simp add: fl_nokey_def)
  have h2: "blobKey fl0 \<noteq> []" and h3: "blobValue fl0 \<noteq> []" by (simp_all add: fl0_def)
  from empty_key_rejected_before_any_call[of fl_nokey rt0 "service []"]
       empty_key_rejected_before_any_call[of fl0 rt0 "service []"] h1 h2 h3
  show ?thesis by blast
qed

subsection \<open>Creating and deleting a container\<close>


lemma fst_answer: "fst (answer c w) = map_option SDK (first_error (take 1 (faults w)))"
  by (cases "faults w" rule: first_error.cases) (simp_all add: answer_def)








subsection \<open>Writing a blob\<close>

text \<open>
  C6. Nothing is tried again. The service throttles the last call of the first three
  attempts to store the blob and would let a fourth succeed: the write command ends at
  the first failure with \<^verbatim>\<open>log.Fatal\<close>, having made each of its calls once; the blob is
  not stored and the later answers of the service are never asked for.
\<close>

theorem write_is_not_retried_counterexample:
  "writeCmd rt0 fl0 (service throttled_thrice) =
     (\<lparr>stdout = [], ending = Fatal (SDK ''Throttled'')\<rparr>,
      \<lparr>blobs = [],
       faults = [None, None, Some ''Throttled'', None, None, Some ''Throttled'', None, None, None],
       list_faults = no_fault,
       calls = [OpenBucket ''c'', NewWriter ''k'', WriterWrite (''v'' @ [newline]), WriterClose ''k'']\<rparr>)"
  by (simp add: writeCmd_def bucket_NewWriter_def Fprintln_def writer_Close_def answer_def
      rt0_def fl0_def service_def throttled_thrice_def)

text \<open>
  C6 as amended. A write with both flags set makes its calls (open the bucket, new
  writer, write, close the writer, and the deferred close of the bucket) at most once
  each and in this order; the first of the four calls it looks at to fail, with whatever
  kind of error, ends the process at once with that error, and the write returns only
  when none of the four fails.
\<close>

theorem write_fails_at_first_error:
  assumes "blobKey fl \<noteq> []" and "blobValue fl \<noteq> []"
  shows "ending (fst (writeCmd rt fl w)) =
           (case first_error (take 4 (faults w)) of
              None \<Rightarrow> Returned
            | Some msg \<Rightarrow> Fatal (SDK msg)) \<and>
         prefix (calls (snd (writeCmd rt fl w)))
                (calls w @ [OpenBucket (containerName fl), NewWriter (blobKey fl),
                            WriterWrite (blobValue fl @ [newline]), WriterClose (blobKey fl),
                            BucketClose])"
proof -
  have "ending (fst (writeCmd rt fl w)) =
           (case first_error (take 4 (faults w)) of
              None \<Rightarrow> Returned
            | Some msg \<Rightarrow> Fatal (SDK msg))"
    using assms
    by (simp add: writeCmd_def bucket_NewWriter_def Fprintln_def writer_Close_def answer_def
             split: list.splits option.splits)
  moreover have "prefix (calls (snd (writeCmd rt fl w)))
                (calls w @ [OpenBucket (containerName fl), NewWriter (blobKey fl),
                            WriterWrite (blobValue fl @ [newline]), WriterClose (blobKey fl),
                            BucketClose])"
    using assms
    by (simp add: writeCmd_def bucket_NewWriter_def Fprintln_def writer_Close_def answer_def
             split: list.splits option.splits)
  ultimately show ?thesis by simp
qed

theorem write_fails_at_first_error_witness:
  "blobKey fl0 \<noteq> [] \<and> blobValue fl0 \<noteq> [] \<and>
   ending (fst (writeCmd rt0 fl0 (service [None, None, Some ''AccessDenied'', None]))) =
     Fatal (SDK ''AccessDenied'') \<and>
   prefix (calls (snd (writeCmd rt0 fl0 (service [None, None, Some ''AccessDenied'', None]))))
          [OpenBucket ''c'', NewWriter ''k'', WriterWrite (''v'' @ [newline]), WriterClose ''k'',
           BucketClose]"
proof -
  have h1: "blobKey fl0 \<noteq> []" and h2: "blobValue fl0 \<noteq> []" by (simp_all add: fl0_def)
  from write_fails_at_first_error[OF h1 h2, of rt0 "service [None, None, Some ''AccessDenied'', None]"]
    h1 h2
  show ?thesis by (simp add: service_def fl0_def)
qed

text \<open>
  C10. A write that returns has stored, under the blob key, the value followed by a
  newline, which is never the value itself; the confirmation quotes the value without the
  newline.
\<close>

theorem write_stores_value_and_newline:
  assumes "ending (fst (writeCmd rt fl w)) = Returned"
  shows "map_of (blobs (snd (writeCmd rt fl w))) (blobKey fl) =
           Some \<lparr>ContentType = DetectContentType rt (blobValue fl @ [newline]),
                 body = blobValue fl @ [newline]\<rparr> \<and>
         blobValue fl @ [newline] \<noteq> blobValue fl \<and>
         stdout (fst (writeCmd rt fl w)) =
           [''Successfully written '' @ quote rt (blobValue fl) @ '' to ''
              @ quote rt (blobKey fl) @ [newline]]"
  using assms
  by (simp add: writeCmd_def bucket_NewWriter_def Fprintln_def writer_Close_def answer_def
      update_conv' split: if_splits list.splits option.splits)

theorem write_stores_value_and_newline_witness:
  "ending (fst (writeCmd rt0 fl0 (service []))) = Returned \<and>
   map_of (blobs (snd (writeCmd rt0 fl0 (service [])))) ''k'' =
     Some \<lparr>ContentType = ''text/plain; charset=utf-8'', body = ''v'' @ [newline]\<rparr> \<and>
   stdout (fst (writeCmd rt0 fl0 (service []))) =
     [''Successfully written '' @ plain_quote ''v'' @ '' to '' @ plain_quote ''k'' @ [newline]]"
proof -
  have r: "ending (fst (writeCmd rt0 fl0 (service []))) = Returned"
    by (simp add: writeCmd_def bucket_NewWriter_def Fprintln_def
        writer_Close_def answer_def rt0_def fl0_def service_def)
  from write_stores_value_and_newline[OF r] r show ?thesis
    by (simp add: rt0_def fl0_def text_plain_def)
qed

subsection \<open>The exit status\<close>

lemma returned_create:
  "ending (fst (createContainerCmd rt fl w)) = Returned \<longleftrightarrow>
   first_error (take 1 (faults w)) = None \<and> url_Parse rt (container_URL fl)"
  by (simp add: createContainerCmd_def answer_def Let_def
      split: if_splits list.splits option.splits)

lemma returned_delete:
  "ending (fst (deleteContainerCmd rt fl w)) = Returned \<longleftrightarrow>
   first_error (take 1 (faults w)) = None \<and> url_Parse rt (container_URL fl)"
  by (simp add: deleteContainerCmd_def answer_def Let_def
      split: if_splits list.splits option.splits)

lemma returned_write:
  "ending (fst (writeCmd rt fl w)) = Returned \<longleftrightarrow>
   first_error (take 4 (faults w)) = None \<and> blobKey fl \<noteq> [] \<and> blobValue fl \<noteq> []"
  by (simp add: writeCmd_def bucket_NewWriter_def Fprintln_def writer_Close_def answer_def
      split: if_splits list.splits option.splits)

lemma returned_read:
  "ending (fst (readCmd rt fl w)) = Returned \<longleftrightarrow>
   first_error (take 3 (faults w)) = None \<and> blobKey fl \<noteq> [] \<and>
   map_of (blobs w) (blobKey fl) \<noteq> None"
  by (auto simp: readCmd_def bucket_NewReader_def answer_def Let_def
      split: if_splits list.splits option.splits)

lemma open_bucket_answer: "open_bucket (snd (answer c w)) = open_bucket w"
  by (simp add: open_bucket_def answer_def split: list.splits)

lemma returned_list:
  "ending (fst (listCmd rt fl w)) = Returned \<longleftrightarrow>
   first_error (take 1 (faults w)) = None \<and>
   snd (list CHR ''/'' (PrefixedBucket (open_bucket w) (blobPrefix fl)) [] []) = None"
  using open_bucket_answer[of "OpenBucket (containerName fl)" w] fst_answer[of "OpenBucket (containerName fl)" w]
  by (cases "answer (OpenBucket (containerName fl)) w";
      cases "list CHR ''/'' (PrefixedBucket (open_bucket w) (blobPrefix fl)) [] []")
     (auto simp: listCmd_def split: option.splits)

lemma returned_Run:
  "NewCredential rt = None \<Longrightarrow> ending (fst (Run rt c fl w)) = Returned \<longleftrightarrow> succeeds rt c fl w"
  using returned_create[of rt fl w] returned_delete[of rt fl w] returned_write[of rt fl w]
    returned_read[of rt fl w] returned_list[of rt fl w]
  by (cases c) (simp_all add: Run_def succeeds_def)

lemma confirmed_create:
  "ending (fst (createContainerCmd rt fl w)) = Returned \<Longrightarrow>
   stdout (fst (createContainerCmd rt fl w)) \<noteq> [] \<and>
   last (stdout (fst (createContainerCmd rt fl w))) = confirmation rt CreateContainer fl"
  by (simp add: createContainerCmd_def answer_def Let_def
      split: if_splits list.splits option.splits)

lemma confirmed_delete:
  "ending (fst (deleteContainerCmd rt fl w)) = Returned \<Longrightarrow>
   stdout (fst (deleteContainerCmd rt fl w)) \<noteq> [] \<and>
   last (stdout (fst (deleteContainerCmd rt fl w))) = confirmation rt DeleteContainer fl"
  by (simp add: deleteContainerCmd_def answer_def Let_def
      split: if_splits list.splits option.splits)

lemma confirmed_write:
  "ending (fst (writeCmd rt fl w)) = Returned \<Longrightarrow>
   stdout (fst (writeCmd rt fl w)) \<noteq> [] \<and>
   last (stdout (fst (writeCmd rt fl w))) = confirmation rt WriteBlob fl"
  by (simp add: writeCmd_def bucket_NewWriter_def Fprintln_def writer_Close_def answer_def
      split: if_splits list.splits option.splits)

lemma confirmed_read:
  "ending (fst (readCmd rt fl w)) = Returned \<Longrightarrow>
   stdout (fst (readCmd rt fl w)) \<noteq> [] \<and>
   last (stdout (fst (readCmd rt fl w))) = confirmation rt ReadBlob fl"
  by (simp add: readCmd_def bucket_NewReader_def answer_def Let_def
      split: if_splits list.splits option.splits)

lemma confirmed_list:
  "ending (fst (listCmd rt fl w)) = Returned \<Longrightarrow>
   stdout (fst (listCmd rt fl w)) \<noteq> [] \<and>
   last (stdout (fst (listCmd rt fl w))) = confirmation rt ListBlobs fl"
  by (simp add: listCmd_def answer_def Let_def
      split: if_splits list.splits option.splits prod.splits)

lemma confirmed_Run:
  "ending (fst (Run rt c fl w)) = Returned \<Longrightarrow>
   stdout (fst (Run rt c fl w)) \<noteq> [] \<and>
   last (stdout (fst (Run rt c fl w))) = confirmation rt c fl"
  using confirmed_create[of rt fl w] confirmed_delete[of rt fl w] confirmed_write[of rt fl w]
    confirmed_read[of rt fl w] confirmed_list[of rt fl w]
  by (cases c) (simp_all add: Run_def)

lemma main_Invoke:
  "fst (main rt (Invoke c fl) w) =
     (case NewCredential rt of
        Some msg \<Rightarrow> \<lparr>stdout = [], ending = Fatal (SDK msg)\<rparr>
      | None \<Rightarrow> fst (Run rt c fl w))"
  by (simp add: main_def Execute_def split: option.splits)

lemma returned_main:
  "ending (fst (main rt (Invoke c fl) w)) = Returned \<longleftrightarrow> succeeds rt c fl w"
proof (cases "NewCredential rt")
  case None
  then show ?thesis using returned_Run[of rt c fl w] by (simp add: main_Invoke)
next
  case (Some msg)
  then show ?thesis by (simp add: main_Invoke succeeds_def)
qed

text \<open>
  C9. Errors do not reach a single boundary at the top. An error of the create call ends
  the process inside the command, through \<^verbatim>\<open>log.Fatal\<close>, while \<^verbatim>\<open>Execute\<close> has no error to
  return; and the one error \<^verbatim>\<open>Execute\<close> does return, for a command line that cobra
  rejects, is dropped by \<^verbatim>\<open>main\<close>, so that the exit status is 0.
\<close>

theorem errors_end_process_inside_command_counterexample:
  "fst (Execute rt0 (Invoke CreateContainer fl0) (service [Some ''AuthenticationFailed''])) = None \<and>
   ending (fst (main rt0 (Invoke CreateContainer fl0) (service [Some ''AuthenticationFailed''])))
     = Fatal (SDK ''AuthenticationFailed'') \<and>
   fst (Execute rt0 (Rejected ''unknown command'') (service [])) = Some (Errorf ''unknown command'') \<and>
   exit_code (fst (main rt0 (Rejected ''unknown command'') (service []))) = 0"
  by (simp add: main_def Execute_def Run_def createContainerCmd_def rt0_def fl0_def service_def
      answer_def accept_url_def exit_code_def)

text \<open>
  C9 as amended. For every run of one of the five commands the exit status is 0 exactly
  when the operation succeeds, and then the confirmation of the command is the last text
  printed; otherwise the status is not 0 and the process is ended inside the command, by
  \<^verbatim>\<open>log.Fatal\<close> at the check or call that failed (or in \<^verbatim>\<open>init\<close>), or by a panic. \<^verbatim>\<open>Execute\<close>
  returns no error for a command that ran.
\<close>

theorem exit_status_decided_inside_command:
  "(exit_code (fst (main rt (Invoke c fl) w)) = 0 \<longleftrightarrow> succeeds rt c fl w) \<and>
   (exit_code (fst (main rt (Invoke c fl) w)) \<noteq> 0 \<longleftrightarrow>
      (\<exists>err. ending (fst (main rt (Invoke c fl) w)) = Fatal err) \<or>
      ending (fst (main rt (Invoke c fl) w)) = Panic) \<and>
   (succeeds rt c fl w \<longrightarrow>
      stdout (fst (main rt (Invoke c fl) w)) \<noteq> [] \<and>
      last (stdout (fst (main rt (Invoke c fl) w))) = confirmation rt c fl) \<and>
   fst (Execute rt (Invoke c fl) w) = None"
proof (intro conjI impI)
  show "exit_code (fst (main rt (Invoke c fl) w)) = 0 \<longleftrightarrow> succeeds rt c fl w"
    using returned_main[of rt c fl w]
    by (cases "ending (fst (main rt (Invoke c fl) w))") (simp_all add: exit_code_def)
  show "exit_code (fst (main rt (Invoke c fl) w)) \<noteq> 0 \<longleftrightarrow>
      (\<exists>err. ending (fst (main rt (Invoke c fl) w)) = Fatal err) \<or>
      ending (fst (main rt (Invoke c fl) w)) = Panic"
    by (cases "ending (fst (main rt (Invoke c fl) w))") (simp_all add: exit_code_def)
  show "fst (Execute rt (Invoke c fl) w) = None" by (simp add: Execute_def)
next
  assume s: "succeeds rt c fl w"
  then have r: "ending (fst (main rt (Invoke c fl) w)) = Returned" by (simp add: returned_main)
  have "NewCredential rt = None" using s by (simp add: succeeds_def)
  then have m: "fst (main rt (Invoke c fl) w) = fst (Run rt c fl w)" by (simp add: main_Invoke)
  from r confirmed_Run[of rt c fl w]
  show "stdout (fst (main rt (Invoke c fl) w)) \<noteq> []"
    and "last (stdout (fst (main rt (Invoke c fl) w))) = confirmation rt c fl"
    unfolding m by simp_all
qed

theorem exit_status_decided_inside_command_witness:
  "succeeds rt0 WriteBlob fl0 (service []) \<and>
   exit_code (fst (main rt0 (Invoke WriteBlob fl0) (service []))) = 0 \<and>
   last (stdout (fst (main rt0 (Invoke WriteBlob fl0) (service [])))) = confirmation rt0 WriteBlob fl0 \<and>
   exit_code (fst (main rt0 (Invoke WriteBlob fl0) (service [None, Some ''Timeout'']))) \<noteq> 0"
proof -
  have s: "succeeds rt0 WriteBlob fl0 (service [])"
    by (simp add: succeeds_def rt0_def fl0_def service_def)
  have f: "\<not> succeeds rt0 WriteBlob fl0 (service [None, Some ''Timeout''])"
    by (simp add: succeeds_def rt0_def fl0_def service_def)
  from exit_status_decided_inside_command[of rt0 WriteBlob fl0 "service []"]
       exit_status_decided_inside_command[of rt0 WriteBlob fl0 "service [None, Some ''Timeout'']"]
       s f
  show ?thesis by blast
qed

subsection \<open>The list command\<close>

lemma visited_key_prefix:
  "(m, obj) \<in> set (visited d ks p n) \<Longrightarrow> \<exists>k \<in> set ks. prefix (Key obj) k"
proof (induction d ks p n arbitrary: m obj rule: visited.induct)
  case (1 d ks p n)
  from "1.prems" obtain top where top: "top \<in> set (buildListing ks p d)"
    and mem: "(m, obj) = (n, top) \<or> (IsDir top \<and> (m, obj) \<in> set (visited d ks (Key top) (Suc n)))"
    by (subst (asm) visited.simps) (auto simp: subtree_def split: if_splits)
  from mem show ?case
  proof
    assume eq: "(m, obj) = (n, top)"
    from top obtain k0 where k0: "k0 \<in> set ks" "prefix p k0" "top = entry d p k0"
      by (auto simp: set_buildListing)
    show ?thesis
    proof (cases "IsDir top")
      case True
      then have "prefix (Key top) k0" using entry_dir_prefix(1)[of p k0 d] k0 by simp
      then show ?thesis using eq k0(1) by auto
    next
      case False
      then have "Key top = k0" using entry_leaf[of d p k0] k0(3) by simp
      then show ?thesis using eq k0(1) by auto
    qed
  next
    assume "IsDir top \<and> (m, obj) \<in> set (visited d ks (Key top) (Suc n))"
    then show ?thesis using "1.IH"[OF top] by blast
  qed
qed

lemma listing_lines_one_newline:
  assumes "\<forall>k \<in> set ks. newline \<notin> set k" and "d \<noteq> newline" and "l \<in> set (listing_lines d ks)"
  shows "count_list l newline = 1 \<and> last l = newline"
proof -
  from assms(3) obtain m obj where mem: "(m, obj) \<in> set (visited d ks [] 0)"
    and l: "l = replicate (2 * depth d obj) CHR '' '' @ Key obj @ [newline]"
    by (auto simp: listing_lines_def)
  from visited_key_prefix[OF mem] obtain k where "k \<in> set ks" "prefix (Key obj) k" by blast
  then have "newline \<notin> set (Key obj)" using assms(1) by (auto simp: prefix_def)
  then have "count_list (Key obj) newline = 0" by (rule count_list_notin)
  moreover have "count_list (replicate j CHR '' '') newline = 0" for j
    by (rule count_list_notin) (simp add: newline_def)
  ultimately show ?thesis unfolding l by simp
qed

text \<open>
  C8. What the list command prints is not always one key on each line at the depth of
  that key. With \<^verbatim>\<open>--blob-prefix a/b/\<close> the key \<^verbatim>\<open>a/b/c\<close>, two directories deep, is printed as
  \<^verbatim>\<open>c\<close> with no indent; a key with a newline in it takes two lines; and the last line
  printed is the confirmation, which is no key.
\<close>

theorem list_prints_relative_keys_counterexample:
  "stdout (fst (listCmd rt0 fl_prefix (holding [''a/b/c''])))
     = [''c'' @ [newline], ''Successfully listed from '' @ plain_quote ''a/b/'' @ [newline]] \<and>
   stdout (fst (listCmd rt0 fl0 (holding [two_line_key])))
     = [two_line_key @ [newline], ''Successfully listed from '' @ plain_quote [] @ [newline]] \<and>
   count_list (two_line_key @ [newline]) newline = 2"
  by (simp add: listCmd_def answer_def holding_def open_bucket_def PrefixedBucket_def list.simps
      List_iter_def buildListing_def entry_def no_fault_def fl_prefix_def fl0_def rt0_def
      two_line_key_def newline_def)

text \<open>
  C8 as amended. When no call fails, the list command prints one piece of text for every
  object of the listing of the keys under the blob prefix, taken without that prefix: the
  object's key followed by a newline, indented by two spaces for each level of the depth
  of that key in the hierarchy of \<^verbatim>\<open>/\<close> (no indent at depth 0); then it prints the
  confirmation. When no key holds a newline, each of these pieces is one line.
\<close>

theorem listCmd_prints_relative_keys:
  assumes "first_error (take 1 (faults w)) = None" and "list_faults w = no_fault"
  shows "stdout (fst (listCmd rt fl w)) =
           listing_lines CHR ''/'' (keys (PrefixedBucket (open_bucket w) (blobPrefix fl)))
             @ [confirmation rt ListBlobs fl] \<and>
         set (keys (PrefixedBucket (open_bucket w) (blobPrefix fl))) =
           {drop (length (blobPrefix fl)) k | k. k \<in> fst ` set (blobs w) \<and> prefix (blobPrefix fl) k} \<and>
         ((\<forall>k \<in> fst ` set (blobs w). newline \<notin> set k) \<longrightarrow>
          (\<forall>l \<in> set (listing_lines CHR ''/'' (keys (PrefixedBucket (open_bucket w) (blobPrefix fl)))).
              count_list l newline = 1 \<and> last l = newline))"
proof (intro conjI impI)
  let ?ks = "keys (PrefixedBucket (open_bucket w) (blobPrefix fl))"
  obtain w1 where a: "answer (OpenBucket (containerName fl)) w = (None, w1)"
    and ob: "open_bucket w1 = open_bucket w"
    using assms(1) fst_answer[of "OpenBucket (containerName fl)" w]
      open_bucket_answer[of "OpenBucket (containerName fl)" w]
    by (cases "answer (OpenBucket (containerName fl)) w") auto
  have pb: "PrefixedBucket (open_bucket w) (blobPrefix fl) = healthy ?ks"
    using assms(2)
    by (simp add: PrefixedBucket_def healthy_def open_bucket_def no_fault_def fun_eq_iff)
  have "list CHR ''/'' (healthy ?ks) [] [] = (listing_lines CHR ''/'' ?ks, None)"
    using list_healthy[of "CHR ''/''" ?ks] list_indents_by_depth[of "CHR ''/''" ?ks]
    by (simp add: listing_lines_def)
  then show "stdout (fst (listCmd rt fl w)) = listing_lines CHR ''/'' ?ks @ [confirmation rt ListBlobs fl]"
    using a ob pb by (simp add: listCmd_def)
  show "set ?ks = {drop (length (blobPrefix fl)) k | k. k \<in> fst ` set (blobs w) \<and> prefix (blobPrefix fl) k}"
    by (auto simp: PrefixedBucket_def open_bucket_def)
next
  let ?ks = "keys (PrefixedBucket (open_bucket w) (blobPrefix fl))"
  assume nl: "\<forall>k \<in> fst ` set (blobs w). newline \<notin> set k"
  have "\<forall>k \<in> set ?ks. newline \<notin> set k"
    using nl by (auto simp: PrefixedBucket_def open_bucket_def dest: in_set_dropD)
  moreover have "CHR ''/'' \<noteq> newline" by (simp add: newline_def)
  ultimately show "\<forall>l \<in> set (listing_lines CHR ''/'' ?ks). count_list l newline = 1 \<and> last l = newline"
    using listing_lines_one_newline by blast
qed

theorem listCmd_prints_relative_keys_witness:
  "first_error (take 1 (faults (holding [''a/b/c'', ''a/b/d/e'', ''x'']))) = None \<and>
   list_faults (holding [''a/b/c'', ''a/b/d/e'', ''x'']) = no_fault \<and>
   stdout (fst (listCmd rt0 fl_prefix (holding [''a/b/c'', ''a/b/d/e'', ''x''])))
     = [''c'' @ [newline], ''d/'' @ [newline], ''  d/e'' @ [newline],
        ''Successfully listed from '' @ plain_quote ''a/b/'' @ [newline]] \<and>
   count_list (''  d/e'' @ [newline]) newline = 1"
proof -
  let ?w = "holding [''a/b/c'', ''a/b/d/e'', ''x'']"
  have h1: "first_error (take 1 (faults ?w)) = None" by (simp add: holding_def)
  have h2: "list_faults ?w = no_fault" by (simp add: holding_def)
  have ks: "keys (PrefixedBucket (open_bucket ?w) (blobPrefix fl_prefix)) = [''c'', ''d/e'']"
    by (simp add: PrefixedBucket_def open_bucket_def holding_def fl_prefix_def)
  have ll: "listing_lines CHR ''/'' [''c'', ''d/e'']
            = [''c'' @ [newline], ''d/'' @ [newline], ''  d/e'' @ [newline]]"
    by (simp add: listing_lines_def visited.simps subtree_def buildListing_def entry_def depth_def
        numeral_2_eq_2)
  from listCmd_prints_relative_keys[OF h1 h2, of rt0 fl_prefix] h1 h2
  show ?thesis unfolding ks ll by (simp add: rt0_def fl_prefix_def newline_def)
qed

end
